theory Spec2Isabelle
  imports Main
begin

section \<open>The window manager of the simulated desktop\<close>

text \<open>
  The development embeds \<^verbatim>\<open>src/components/desktop/WindowManager.tsx\<close>: the
  provider keeps two pieces of React state, the array \<^verbatim>\<open>windows\<close> and the number
  \<^verbatim>\<open>topZIndex\<close>, and eight callbacks that replace them through functional
  updaters. Each callback is modelled as one function from the state before the call to
  the state after it: calls are taken one at a time, each applied to the state the
  previous one left, and the nested updaters of a stacking operation are one step (how
  React queues and replays updaters is not modelled). The telemetry calls made inside the
  updaters are recorded, in order, in a third component of the state.

  Numbers: \<^verbatim>\<open>zIndex\<close> and \<^verbatim>\<open>topZIndex\<close> start at the integer 100 and are only ever
  incremented by one, so they are modelled as \<open>int\<close> (an IEEE double is exact on this
  range up to \<open>2^53\<close>). The geometry numbers are never inspected by the code and are kept
  abstract as a type parameter \<open>'n\<close>. Field names \<^verbatim>\<open>id\<close>, \<^verbatim>\<open>x\<close> and \<^verbatim>\<open>y\<close> carry the
  suffix \<open>_w\<close>, since \<open>id\<close> is a constant of HOL and \<open>x\<close>, \<open>y\<close> are wanted as variables.
\<close>

subsection \<open>Data\<close>

text \<open>
  Modelled from the spec: the interface \<^verbatim>\<open>WindowState\<close> is imported from
  \<^verbatim>\<open>./types\<close>, which is not among the sources. Its fields are those the spec lists for a
  WindowRecord and the code reads or writes. \<open>WindowSpec\<close> is the argument type of
  \<^verbatim>\<open>openWindow\<close>, \<^verbatim>\<open>Omit<WindowState, 'zIndex' | 'isFocused'>\<close>: the caller
  supplies \<open>isMinimized\<close> and \<open>isMaximized\<close> of a window that is created.
\<close>

record 'n WindowSpec =
  id_w :: string
  title :: string
  icon :: string
  x_w :: 'n
  y_w :: 'n
  width :: 'n
  height :: 'n
  isMinimized :: bool
  isMaximized :: bool

record 'n WindowState = "'n WindowSpec" +
  isFocused :: bool
  zIndex :: int

text \<open>
  What is handed to the telemetry library: a structured log line
  (\<^verbatim>\<open>Sentry.logger.info\<close>), a counter (\<^verbatim>\<open>Sentry.metrics.increment\<close>, with its tags)
  or a gauge (\<^verbatim>\<open>Sentry.metrics.gauge\<close>). A tag value is \<open>None\<close> where JavaScript would
  pass \<^verbatim>\<open>undefined\<close>.
\<close>

datatype 'n attr =
    AStr string
  | ANum 'n
  | ABool bool
  | AObj "(string \<times> 'n attr) list"

datatype 'n telemetry =
    LoggerInfo string "(string \<times> 'n attr) list"
  | MetricsIncrement string int "(string \<times> string option) list"
  | MetricsGauge string int

record 'n Desktop =
  windows :: "'n WindowState list"
  topZIndex :: int
  sentry :: "'n telemetry list"

text \<open>The two \<^verbatim>\<open>useState\<close> initial values; nothing has been emitted yet.\<close>

definition initial :: "'n Desktop" where
  "initial = \<lparr>windows = [], topZIndex = 100, sentry = []\<rparr>"

subsection \<open>The window type tag\<close>

text \<open>
  \<^verbatim>\<open>String.prototype.split\<close> with a one-character separator, as ECMAScript defines
  it: the pieces between the occurrences of the separator, so a string without the
  separator gives the one-element array holding the string itself. The separator used is
  the ASCII character \<open>-\<close>, which is one unit in every encoding of the string.
\<close>

fun split_js :: "char \<Rightarrow> string \<Rightarrow> string list" where
  "split_js sep [] = [[]]"
| "split_js sep (c # cs) =
     (if c = sep then [] # split_js sep cs
      else (case split_js sep cs of
              [] \<Rightarrow> [[c]]
            | p # ps \<Rightarrow> (c # p) # ps))"

text \<open>\<^verbatim>\<open>id.split('-')[0]\<close>; an index past the end of an array reads \<^verbatim>\<open>undefined\<close>.\<close>

definition window_type :: "string \<Rightarrow> string option" where
  "window_type i = (case split_js (CHR ''-'') i of [] \<Rightarrow> None | p # _ \<Rightarrow> Some p)"

subsection \<open>The operations\<close>

text \<open>
  Every callback has the shape \<^verbatim>\<open>setWindows(prev => ...)\<close>, for the stacking
  operations nested in \<^verbatim>\<open>setTopZIndex(currentZ => ...)\<close>. The function passed to
  \<^verbatim>\<open>setWindows\<close> is modelled by an \<open>_updater\<close> that returns the telemetry it emits
  together with the new array.
\<close>

definition openWindow_updater ::
  "int \<Rightarrow> 'n WindowSpec \<Rightarrow> 'n WindowState list \<Rightarrow> 'n telemetry list \<times> 'n WindowState list" where
  "openWindow_updater newZ window prev =
     (let existing = find (\<lambda>w. id_w w = id_w window) prev;
          events =
            (case existing of
               None \<Rightarrow>
                 [LoggerInfo ''window_opened''
                    [(''window_id'', AStr (id_w window)),
                     (''window_title'', AStr (title window)),
                     (''window_icon'', AStr (icon window)),
                     (''dimensions'', AObj
                        [(''width'', ANum (width window)),
                         (''height'', ANum (height window)),
                         (''x'', ANum (x_w window)),
                         (''y'', ANum (y_w window))])],
                  MetricsIncrement ''desktop.windows.opened'' 1
                    [(''window_type'', window_type (id_w window))],
                  MetricsGauge ''desktop.windows.active'' (int (length prev) + 1)]
             | Some e \<Rightarrow>
                 [LoggerInfo ''window_focused''
                    [(''window_id'', AStr (id_w window)),
                     (''was_minimized'', ABool (isMinimized e))],
                  MetricsIncrement ''desktop.windows.focused'' 1
                    [(''window_type'', window_type (id_w window))]])
      in case existing of
           Some e \<Rightarrow>
             if isMinimized e then
               (events,
                map (\<lambda>w. if id_w w = id_w window
                          then w\<lparr>isMinimized := False, isFocused := True, zIndex := newZ\<rparr>
                          else w\<lparr>isFocused := False\<rparr>) prev)
             else
               (events,
                map (\<lambda>w. if id_w w = id_w window
                          then w\<lparr>isFocused := True, zIndex := newZ\<rparr>
                          else w\<lparr>isFocused := False\<rparr>) prev)
         | None \<Rightarrow>
             (events,
              map (\<lambda>w. w\<lparr>isFocused := False\<rparr>) prev @
              [\<lparr>id_w = id_w window, title = title window, icon = icon window,
                x_w = x_w window, y_w = y_w window,
                width = width window, height = height window,
                isMinimized = isMinimized window, isMaximized = isMaximized window,
                isFocused = True, zIndex = newZ\<rparr>]))"

definition openWindow :: "'n WindowSpec \<Rightarrow> 'n Desktop \<Rightarrow> 'n Desktop" where
  "openWindow window s =
     (let newZ = topZIndex s + 1;
          (events, ws) = openWindow_updater newZ window (windows s)
      in \<lparr>windows = ws, topZIndex = newZ, sentry = sentry s @ events\<rparr>)"

definition closeWindow_updater ::
  "string \<Rightarrow> 'n WindowState list \<Rightarrow> 'n telemetry list \<times> 'n WindowState list" where
  "closeWindow_updater i prev =
     (let window = find (\<lambda>w. id_w w = i) prev;
          events =
            (case window of
               Some e \<Rightarrow>
                 [LoggerInfo ''window_closed''
                    [(''window_id'', AStr i), (''window_title'', AStr (title e))],
                  MetricsIncrement ''desktop.windows.closed'' 1
                    [(''window_type'', window_type i)],
                  MetricsGauge ''desktop.windows.active'' (int (length prev) - 1)]
             | None \<Rightarrow> [])
      in (events, filter (\<lambda>w. id_w w \<noteq> i) prev))"

definition closeWindow :: "string \<Rightarrow> 'n Desktop \<Rightarrow> 'n Desktop" where
  "closeWindow i s =
     (let (events, ws) = closeWindow_updater i (windows s)
      in s\<lparr>windows := ws, sentry := sentry s @ events\<rparr>)"

definition minimizeWindow_updater ::
  "string \<Rightarrow> 'n WindowState list \<Rightarrow> 'n telemetry list \<times> 'n WindowState list" where
  "minimizeWindow_updater i prev =
     (let window = find (\<lambda>w. id_w w = i) prev;
          events =
            (case window of
               Some e \<Rightarrow>
                 [LoggerInfo ''window_minimized''
                    [(''window_id'', AStr i), (''window_title'', AStr (title e))],
                  MetricsIncrement ''desktop.windows.minimized'' 1
                    [(''window_type'', window_type i)]]
             | None \<Rightarrow> [])
      in (events,
          map (\<lambda>w. if id_w w = i then w\<lparr>isMinimized := True, isFocused := False\<rparr> else w)
            prev))"

definition minimizeWindow :: "string \<Rightarrow> 'n Desktop \<Rightarrow> 'n Desktop" where
  "minimizeWindow i s =
     (let (events, ws) = minimizeWindow_updater i (windows s)
      in s\<lparr>windows := ws, sentry := sentry s @ events\<rparr>)"

definition maximizeWindow_updater ::
  "string \<Rightarrow> 'n WindowState list \<Rightarrow> 'n telemetry list \<times> 'n WindowState list" where
  "maximizeWindow_updater i prev =
     (let window = find (\<lambda>w. id_w w = i) prev;
          events =
            (case window of
               Some e \<Rightarrow>
                 (let newMaximizedState = (\<not> isMaximized e)
                  in [LoggerInfo ''window_maximized''
                        [(''window_id'', AStr i), (''window_title'', AStr (title e)),
                         (''is_maximized'', ABool newMaximizedState)],
                      MetricsIncrement ''desktop.windows.maximized'' 1
                        [(''window_type'', window_type i),
                         (''action'',
                          Some (if newMaximizedState then ''maximize'' else ''restore''))]])
             | None \<Rightarrow> [])
      in (events,
          map (\<lambda>w. if id_w w = i then w\<lparr>isMaximized := \<not> isMaximized w\<rparr> else w) prev))"

definition maximizeWindow :: "string \<Rightarrow> 'n Desktop \<Rightarrow> 'n Desktop" where
  "maximizeWindow i s =
     (let (events, ws) = maximizeWindow_updater i (windows s)
      in s\<lparr>windows := ws, sentry := sentry s @ events\<rparr>)"

text \<open>\<^verbatim>\<open>restoreWindow\<close> and \<^verbatim>\<open>focusWindow\<close> make no telemetry call.\<close>

definition restoreWindow_updater ::
  "int \<Rightarrow> string \<Rightarrow> 'n WindowState list \<Rightarrow> 'n WindowState list" where
  "restoreWindow_updater newZ i prev =
     map (\<lambda>w. if id_w w = i
               then w\<lparr>isMinimized := False, isFocused := True, zIndex := newZ\<rparr>
               else w\<lparr>isFocused := False\<rparr>) prev"

definition restoreWindow :: "string \<Rightarrow> 'n Desktop \<Rightarrow> 'n Desktop" where
  "restoreWindow i s =
     (let newZ = topZIndex s + 1
      in s\<lparr>windows := restoreWindow_updater newZ i (windows s), topZIndex := newZ\<rparr>)"

definition focusWindow_updater ::
  "int \<Rightarrow> string \<Rightarrow> 'n WindowState list \<Rightarrow> 'n WindowState list" where
  "focusWindow_updater newZ i prev =
     map (\<lambda>w. if id_w w = i
               then w\<lparr>isFocused := True, zIndex := newZ\<rparr>
               else w\<lparr>isFocused := False\<rparr>) prev"

definition focusWindow :: "string \<Rightarrow> 'n Desktop \<Rightarrow> 'n Desktop" where
  "focusWindow i s =
     (let newZ = topZIndex s + 1
      in s\<lparr>windows := focusWindow_updater newZ i (windows s), topZIndex := newZ\<rparr>)"

definition updateWindowPosition :: "string \<Rightarrow> 'n \<Rightarrow> 'n \<Rightarrow> 'n Desktop \<Rightarrow> 'n Desktop" where
  "updateWindowPosition i x y s =
     s\<lparr>windows := map (\<lambda>w. if id_w w = i then w\<lparr>x_w := x, y_w := y\<rparr> else w) (windows s)\<rparr>"

definition updateWindowSize :: "string \<Rightarrow> 'n \<Rightarrow> 'n \<Rightarrow> 'n Desktop \<Rightarrow> 'n Desktop" where
  "updateWindowSize i w h s =
     s\<lparr>windows := map (\<lambda>v. if id_w v = i then v\<lparr>width := w, height := h\<rparr> else v)
                    (windows s)\<rparr>"

subsection \<open>Sequences of operations\<close>

datatype 'n operation =
    Open "'n WindowSpec"
  | Close string
  | Minimize string
  | Maximize string
  | Restore string
  | Focus string
  | Reposition string 'n 'n
  | Resize string 'n 'n

fun step :: "'n operation \<Rightarrow> 'n Desktop \<Rightarrow> 'n Desktop" where
  "step (Open window) s = openWindow window s"
| "step (Close i) s = closeWindow i s"
| "step (Minimize i) s = minimizeWindow i s"
| "step (Maximize i) s = maximizeWindow i s"
| "step (Restore i) s = restoreWindow i s"
| "step (Focus i) s = focusWindow i s"
| "step (Reposition i x y) s = updateWindowPosition i x y s"
| "step (Resize i w h) s = updateWindowSize i w h s"

text \<open>
  \<open>states ops s\<close> lists every state the desktop passes through while \<open>ops\<close> runs from
  \<open>s\<close>, the start included; \<open>run ops s\<close> is the state at the end.
\<close>

fun states :: "'n operation list \<Rightarrow> 'n Desktop \<Rightarrow> 'n Desktop list" where
  "states [] s = [s]"
| "states (op # ops) s = s # states ops (step op s)"

fun run :: "'n operation list \<Rightarrow> 'n Desktop \<Rightarrow> 'n Desktop" where
  "run [] s = s"
| "run (op # ops) s = run ops (step op s)"

text \<open>The number of records that hold the focus.\<close>

definition focused_count :: "'n WindowState list \<Rightarrow> nat" where
  "focused_count ws = length (filter isFocused ws)"

text \<open>
  What every state reached from the initial one satisfies: identifiers are pairwise
  distinct, stacking indices are pairwise distinct and none exceeds the counter, and at
  most one record holds the focus.
\<close>

definition registry_inv :: "'n Desktop \<Rightarrow> bool" where
  "registry_inv s \<longleftrightarrow>
     distinct (map id_w (windows s))
   \<and> distinct (map zIndex (windows s))
   \<and> (\<forall>w \<in> set (windows s). zIndex w \<le> topZIndex s)
   \<and> focused_count (windows s) \<le> 1"

text \<open>
  The identifier an operation is called with (\<^verbatim>\<open>window.id\<close> for \<^verbatim>\<open>openWindow\<close>, the
  argument \<^verbatim>\<open>id\<close> for the others), and the telemetry one operation adds to the record
  of emitted telemetry.
\<close>

fun op_id :: "'n operation \<Rightarrow> string" where
  "op_id (Open window) = id_w window"
| "op_id (Close i) = i"
| "op_id (Minimize i) = i"
| "op_id (Maximize i) = i"
| "op_id (Restore i) = i"
| "op_id (Focus i) = i"
| "op_id (Reposition i x y) = i"
| "op_id (Resize i w h) = i"

definition emitted :: "'n operation \<Rightarrow> 'n Desktop \<Rightarrow> 'n telemetry list" where
  "emitted op s = drop (length (sentry s)) (sentry (step op s))"

subsection \<open>Two windows used as concrete inputs\<close>

definition notesWindow :: "int WindowSpec" where
  "notesWindow = \<lparr>id_w = ''notes-1'', title = ''Notes'', icon = ''notes'',
                  x_w = 0, y_w = 0, width = 400, height = 300,
                  isMinimized = False, isMaximized = False\<rparr>"

definition calcWindow :: "int WindowSpec" where
  "calcWindow = \<lparr>id_w = ''calc-1'', title = ''Calculator'', icon = ''calc'',
                 x_w = 50, y_w = 60, width = 320, height = 480,
                 isMinimized = False, isMaximized = False\<rparr>"

text \<open>
  The desktop after the first window was opened on the empty registry, and after a second
  one was opened next.
\<close>

definition desk1 :: "int Desktop" where
  "desk1 = run [Open notesWindow] initial"

definition desk2 :: "int Desktop" where
  "desk2 = run [Open notesWindow, Open calcWindow] initial"

section \<open>Properties\<close>

subsection \<open>What each operation does to the two state variables\<close>

lemma topZIndex_openWindow: "topZIndex (openWindow window s) = topZIndex s + 1"
  by (simp add: openWindow_def Let_def split: prod.splits)

lemma topZIndex_closeWindow: "topZIndex (closeWindow i s) = topZIndex s"
  by (simp add: closeWindow_def split: prod.splits)

lemma topZIndex_minimizeWindow: "topZIndex (minimizeWindow i s) = topZIndex s"
  by (simp add: minimizeWindow_def split: prod.splits)

lemma topZIndex_maximizeWindow: "topZIndex (maximizeWindow i s) = topZIndex s"
  by (simp add: maximizeWindow_def split: prod.splits)

lemma topZIndex_restoreWindow: "topZIndex (restoreWindow i s) = topZIndex s + 1"
  by (simp add: restoreWindow_def Let_def)

lemma topZIndex_focusWindow: "topZIndex (focusWindow i s) = topZIndex s + 1"
  by (simp add: focusWindow_def Let_def)

lemma topZIndex_updateWindowPosition: "topZIndex (updateWindowPosition i x y s) = topZIndex s"
  by (simp add: updateWindowPosition_def)

lemma topZIndex_updateWindowSize: "topZIndex (updateWindowSize i w h s) = topZIndex s"
  by (simp add: updateWindowSize_def)

text \<open>
  On the path of \<^verbatim>\<open>openWindow\<close> that finds the identifier, the two branches on
  \<^verbatim>\<open>existing.isMinimized\<close> are one map: a matching record stays minimized only if it
  was and the record found first was not.
\<close>

lemma windows_openWindow:
  "windows (openWindow window s) =
     (case find (\<lambda>w. id_w w = id_w window) (windows s) of
        None \<Rightarrow>
          map (\<lambda>w. w\<lparr>isFocused := False\<rparr>) (windows s) @
          [\<lparr>id_w = id_w window, title = title window, icon = icon window,
            x_w = x_w window, y_w = y_w window,
            width = width window, height = height window,
            isMinimized = isMinimized window, isMaximized = isMaximized window,
            isFocused = True, zIndex = topZIndex s + 1\<rparr>]
      | Some e \<Rightarrow>
          map (\<lambda>w. if id_w w = id_w window
                    then w\<lparr>isMinimized := isMinimized w \<and> \<not> isMinimized e,
                           isFocused := True, zIndex := topZIndex s + 1\<rparr>
                    else w\<lparr>isFocused := False\<rparr>) (windows s))"
  by (simp add: openWindow_def openWindow_updater_def Let_def split: option.splits)

lemma windows_closeWindow:
  "windows (closeWindow i s) = filter (\<lambda>w. id_w w \<noteq> i) (windows s)"
  by (simp add: closeWindow_def closeWindow_updater_def Let_def)

lemma windows_minimizeWindow:
  "windows (minimizeWindow i s) =
     map (\<lambda>w. if id_w w = i then w\<lparr>isMinimized := True, isFocused := False\<rparr> else w) (windows s)"
  by (simp add: minimizeWindow_def minimizeWindow_updater_def Let_def)

lemma windows_maximizeWindow:
  "windows (maximizeWindow i s) =
     map (\<lambda>w. if id_w w = i then w\<lparr>isMaximized := \<not> isMaximized w\<rparr> else w) (windows s)"
  by (simp add: maximizeWindow_def maximizeWindow_updater_def Let_def)

lemma windows_restoreWindow:
  "windows (restoreWindow i s) =
     map (\<lambda>w. if id_w w = i
               then w\<lparr>isMinimized := False, isFocused := True, zIndex := topZIndex s + 1\<rparr>
               else w\<lparr>isFocused := False\<rparr>) (windows s)"
  by (simp add: restoreWindow_def restoreWindow_updater_def Let_def)

lemma windows_focusWindow:
  "windows (focusWindow i s) =
     map (\<lambda>w. if id_w w = i
               then w\<lparr>isFocused := True, zIndex := topZIndex s + 1\<rparr>
               else w\<lparr>isFocused := False\<rparr>) (windows s)"
  by (simp add: focusWindow_def focusWindow_updater_def Let_def)

lemma windows_updateWindowPosition:
  "windows (updateWindowPosition i x y s) =
     map (\<lambda>w. if id_w w = i then w\<lparr>x_w := x, y_w := y\<rparr> else w) (windows s)"
  by (simp add: updateWindowPosition_def)

lemma windows_updateWindowSize:
  "windows (updateWindowSize i w h s) =
     map (\<lambda>v. if id_w v = i then v\<lparr>width := w, height := h\<rparr> else v) (windows s)"
  by (simp add: updateWindowSize_def)

lemmas windows_ops = windows_openWindow windows_closeWindow windows_minimizeWindow
  windows_maximizeWindow windows_restoreWindow windows_focusWindow
  windows_updateWindowPosition windows_updateWindowSize

lemmas topZIndex_ops = topZIndex_openWindow topZIndex_closeWindow topZIndex_minimizeWindow
  topZIndex_maximizeWindow topZIndex_restoreWindow topZIndex_focusWindow
  topZIndex_updateWindowPosition topZIndex_updateWindowSize

lemma topZIndex_step:
  "topZIndex (step op s) =
     (case op of Open _ \<Rightarrow> topZIndex s + 1 | Restore _ \<Rightarrow> topZIndex s + 1
      | Focus _ \<Rightarrow> topZIndex s + 1 | _ \<Rightarrow> topZIndex s)"
  by (cases op) (simp_all add: topZIndex_ops)

lemma topZIndex_step_mono: "topZIndex s \<le> topZIndex (step op s)"
  by (cases op) (simp_all add: topZIndex_ops)

subsection \<open>Lists whose elements have distinct keys\<close>

lemma filter_other_ids:
  assumes "distinct (map g xs)" and "k < length xs"
  shows "filter (\<lambda>w. g w \<noteq> g (xs ! k)) xs = take k xs @ drop (Suc k) xs"
  using assms
proof (induction xs arbitrary: k)
  case Nil
  then show ?case by simp
next
  case (Cons x xs)
  show ?case
  proof (cases k)
    case 0
    have "\<forall>w \<in> set xs. g w \<noteq> g x" using Cons.prems(1) by (metis distinct.simps(2) imageI list.simps(9) set_map)
    then have "filter (\<lambda>w. g w \<noteq> g x) xs = xs" by (simp add: filter_id_conv)
    with 0 show ?thesis by simp
  next
    case (Suc m)
    then have m: "m < length xs" using Cons.prems(2) by simp
    then have "xs ! m \<in> set xs" by simp
    then have "g x \<noteq> g (xs ! m)" using Cons.prems(1) by (metis distinct.simps(2) imageI list.simps(9) set_map)
    moreover have "distinct (map g xs)" using Cons.prems(1) by simp
    ultimately show ?thesis using Suc Cons.IH[OF _ m] by simp
  qed
qed

lemma same_id_same_index:
  assumes "distinct (map g xs)" and "j < length xs" and "k < length xs"
    and "g (xs ! j) = g (xs ! k)"
  shows "j = k"
proof -
  have "map g xs ! j = map g xs ! k" using assms by simp
  then show ?thesis
    using assms(1,2,3) nth_eq_iff_index_eq[of "map g xs" j k] by simp
qed

lemma find_SomeD: "find P xs = Some e \<Longrightarrow> e \<in> set xs \<and> P e"
  by (induction xs) (auto split: if_splits)

lemma find_at_index:
  assumes "distinct (map g xs)" and "k < length xs"
  shows "find (\<lambda>w. g w = g (xs ! k)) xs = Some (xs ! k)"
proof -
  have "\<exists>w \<in> set xs. g w = g (xs ! k)" using assms(2) by auto
  then obtain e where e: "find (\<lambda>w. g w = g (xs ! k)) xs = Some e"
    by (cases "find (\<lambda>w. g w = g (xs ! k)) xs") (auto simp: find_None_iff)
  then obtain j where j: "j < length xs" "e = xs ! j" "g (xs ! j) = g (xs ! k)"
    by (auto simp: find_Some_iff)
  then have "j = k" using same_id_same_index[OF assms(1) j(1) assms(2)] by simp
  with e j show ?thesis by simp
qed

lemma count_key_le_one:
  assumes "distinct (map g xs)"
  shows "length (filter (\<lambda>w. g w = i) xs) \<le> 1"
  using assms
proof (induction xs)
  case Nil
  then show ?case by simp
next
  case (Cons x xs)
  have gx: "\<forall>w \<in> set xs. g w \<noteq> g x"
    using Cons.prems by (metis distinct.simps(2) imageI list.simps(9) set_map)
  show ?case
  proof (cases "g x = i")
    case True
    then have "filter (\<lambda>w. g w = i) xs = []" using gx by (auto simp: filter_empty_conv)
    with True show ?thesis by simp
  next
    case False
    with Cons show ?thesis by simp
  qed
qed

lemma count_key_one:
  assumes "distinct (map g xs)" and "i \<in> set (map g xs)"
  shows "length (filter (\<lambda>w. g w = i) xs) = 1"
proof -
  have "filter (\<lambda>w. g w = i) xs \<noteq> []" using assms(2) by (auto simp: filter_empty_conv)
  then have "0 < length (filter (\<lambda>w. g w = i) xs)" by simp
  with count_key_le_one[OF assms(1), of i] show ?thesis by linarith
qed

lemma distinct_bump:
  assumes "distinct (map g xs)" and "distinct (map z xs)" and "\<forall>w \<in> set xs. z w < (n::int)"
  shows "distinct (map (\<lambda>w. if g w = i then n else z w) xs)"
  using assms
proof (induction xs)
  case Nil
  then show ?case by simp
next
  case (Cons x xs)
  have IH: "distinct (map (\<lambda>w. if g w = i then n else z w) xs)"
    using Cons by simp
  have gx: "\<forall>w \<in> set xs. g w \<noteq> g x"
    using Cons.prems(1) by (metis distinct.simps(2) imageI list.simps(9) set_map)
  have zx: "\<forall>w \<in> set xs. z w \<noteq> z x"
    using Cons.prems(2) by (metis distinct.simps(2) imageI list.simps(9) set_map)
  have lt: "z x < n" "\<forall>w \<in> set xs. z w < n" using Cons.prems(3) by simp_all
  have "(if g x = i then n else z x) \<notin> (\<lambda>w. if g w = i then n else z w) ` set xs"
  proof
    assume "(if g x = i then n else z x) \<in> (\<lambda>w. if g w = i then n else z w) ` set xs"
    then obtain w where w: "w \<in> set xs"
      "(if g x = i then n else z x) = (if g w = i then n else z w)" by auto
    show False
    proof (cases "g x = i")
      case True
      then have "g w \<noteq> i" using gx w(1) by auto
      with True w lt show False by auto
    next
      case False
      with w lt zx show False by (auto split: if_splits)
    qed
  qed
  with IH show ?case by simp
qed

subsection \<open>The two concrete desktops\<close>

lemma desk1_eq: "desk1 =
   \<lparr>windows = [\<lparr>id_w = ''notes-1'', title = ''Notes'', icon = ''notes'',
            x_w = 0, y_w = 0, width = 400, height = 300,
            isMinimized = False, isMaximized = False, isFocused = True, zIndex = 101\<rparr>],
    topZIndex = 101,
    sentry = [LoggerInfo ''window_opened''
                    [(''window_id'', AStr ''notes-1''),
                     (''window_title'', AStr ''Notes''),
                     (''window_icon'', AStr ''notes''),
                     (''dimensions'', AObj
                        [(''width'', ANum 400),
                         (''height'', ANum 300),
                         (''x'', ANum 0),
                         (''y'', ANum 0)])],
                  MetricsIncrement ''desktop.windows.opened'' 1
                    [(''window_type'', Some ''notes'')],
                  MetricsGauge ''desktop.windows.active'' 1]\<rparr>"
  by (simp add: desk1_def initial_def notesWindow_def openWindow_def openWindow_updater_def
      window_type_def)

lemma windows_desk1: "windows desk1 =
   [\<lparr>id_w = ''notes-1'', title = ''Notes'', icon = ''notes'',
     x_w = 0, y_w = 0, width = 400, height = 300,
     isMinimized = False, isMaximized = False, isFocused = True, zIndex = 101\<rparr>]"
  by (simp add: desk1_eq)

lemma topZIndex_desk1: "topZIndex desk1 = 101"
  by (simp add: desk1_eq)

lemma windows_desk2: "windows desk2 =
   [\<lparr>id_w = ''notes-1'', title = ''Notes'', icon = ''notes'',
     x_w = 0, y_w = 0, width = 400, height = 300,
     isMinimized = False, isMaximized = False, isFocused = False, zIndex = 101\<rparr>,
    \<lparr>id_w = ''calc-1'', title = ''Calculator'', icon = ''calc'',
     x_w = 50, y_w = 60, width = 320, height = 480,
     isMinimized = False, isMaximized = False, isFocused = True, zIndex = 102\<rparr>]"
  by (simp add: desk2_def initial_def notesWindow_def calcWindow_def windows_openWindow
      topZIndex_openWindow)

lemma topZIndex_desk2: "topZIndex desk2 = 102"
  by (simp add: desk2_def initial_def topZIndex_openWindow)

lemmas desk_simps = windows_desk1 topZIndex_desk1 windows_desk2 topZIndex_desk2

subsection \<open>The invariant of the registry\<close>

text \<open>
  Identifiers and stacking indices after one operation, as functions of those before.
\<close>

lemma ids_step:
  "map id_w (windows (step op s)) =
     (case op of
        Open window \<Rightarrow>
          (if id_w window \<in> set (map id_w (windows s)) then map id_w (windows s)
           else map id_w (windows s) @ [id_w window])
      | Close i \<Rightarrow> filter (\<lambda>j. j \<noteq> i) (map id_w (windows s))
      | _ \<Rightarrow> map id_w (windows s))"
proof (cases op)
  case (Open window)
  show ?thesis
  proof (cases "find (\<lambda>w. id_w w = id_w window) (windows s)")
    case None
    then have "id_w window \<notin> set (map id_w (windows s))"
      by (auto simp: find_None_iff)
    with None Open show ?thesis by (simp add: windows_openWindow comp_def)
  next
    case (Some e)
    then have "id_w window \<in> set (map id_w (windows s))"
      using find_SomeD[OF Some] by force
    with Some Open show ?thesis
      by (simp add: windows_openWindow comp_def if_distrib cong: if_cong)
  qed
next
  case (Close i)
  then show ?thesis by (simp add: windows_closeWindow filter_map comp_def)
qed (simp_all add: windows_ops comp_def if_distrib cong: if_cong)

lemma distinct_ids_step:
  assumes "distinct (map id_w (windows s))"
  shows "distinct (map id_w (windows (step op s)))"
  using assms by (simp add: ids_step split: operation.split)

lemma zIndex_step:
  "map zIndex (windows (step op s)) =
     (case op of
        Open window \<Rightarrow>
          (if id_w window \<in> set (map id_w (windows s))
           then map (\<lambda>w. if id_w w = id_w window then topZIndex s + 1 else zIndex w) (windows s)
           else map zIndex (windows s) @ [topZIndex s + 1])
      | Close i \<Rightarrow> map zIndex (filter (\<lambda>w. id_w w \<noteq> i) (windows s))
      | Restore i \<Rightarrow> map (\<lambda>w. if id_w w = i then topZIndex s + 1 else zIndex w) (windows s)
      | Focus i \<Rightarrow> map (\<lambda>w. if id_w w = i then topZIndex s + 1 else zIndex w) (windows s)
      | _ \<Rightarrow> map zIndex (windows s))"
proof (cases op)
  case (Open window)
  show ?thesis
  proof (cases "find (\<lambda>w. id_w w = id_w window) (windows s)")
    case None
    then have "id_w window \<notin> set (map id_w (windows s))"
      by (auto simp: find_None_iff)
    with None Open show ?thesis by (simp add: windows_openWindow comp_def)
  next
    case (Some e)
    then have "id_w window \<in> set (map id_w (windows s))"
      using find_SomeD[OF Some] by force
    with Some Open show ?thesis
      by (simp add: windows_openWindow comp_def if_distrib cong: if_cong)
  qed
qed (simp_all add: windows_ops comp_def if_distrib cong: if_cong)

lemma zIndex_inv_step:
  assumes "distinct (map id_w (windows s))" and "distinct (map zIndex (windows s))"
    and "\<forall>w \<in> set (windows s). zIndex w \<le> topZIndex s"
  shows "distinct (map zIndex (windows (step op s)))
       \<and> (\<forall>w \<in> set (windows (step op s)). zIndex w \<le> topZIndex (step op s))"
proof -
  have lt: "\<forall>w \<in> set (windows s). zIndex w < topZIndex s + 1" using assms(3) by auto
  have bump: "distinct (map (\<lambda>w. if id_w w = i then topZIndex s + 1 else zIndex w) (windows s))"
    for i using distinct_bump[OF assms(1,2) lt] .
  have fresh: "topZIndex s + 1 \<notin> set (map zIndex (windows s))" using lt by auto
  have d: "distinct (map zIndex (windows (step op s)))"
    using assms(2) bump fresh
    by (simp add: zIndex_step distinct_map_filter split: operation.split)
  have "\<forall>z \<in> set (map zIndex (windows (step op s))). z \<le> topZIndex (step op s)"
    using assms(3) by (auto simp add: zIndex_step topZIndex_step split: operation.split)
  with d show ?thesis by simp
qed

text \<open>
  The stacking operations leave as many focused records as there are records with the
  target identifier; the others never add a focused record.
\<close>

lemma focused_count_target:
  assumes "\<And>w. isFocused (f w) = (id_w w = i)"
  shows "focused_count (map f ws) = length (filter (\<lambda>w. id_w w = i) ws)"
  using assms by (simp add: focused_count_def filter_map comp_def)

lemma focused_count_map_le:
  assumes "\<And>w. isFocused (f w) \<Longrightarrow> isFocused w"
  shows "focused_count (map f ws) \<le> focused_count ws"
proof (induction ws)
  case Nil
  then show ?case by (simp add: focused_count_def)
next
  case (Cons w ws)
  then show ?case using assms[of w] by (auto simp: focused_count_def)
qed

lemma focused_count_filter_le: "focused_count (filter P ws) \<le> focused_count ws"
  by (induction ws) (auto simp: focused_count_def)

lemma focused_count_focusWindow:
  "focused_count (windows (focusWindow i s)) = length (filter (\<lambda>w. id_w w = i) (windows s))"
  by (simp add: windows_focusWindow focused_count_target)

lemma focused_count_restoreWindow:
  "focused_count (windows (restoreWindow i s)) = length (filter (\<lambda>w. id_w w = i) (windows s))"
  by (simp add: windows_restoreWindow focused_count_target)

lemma focused_count_openWindow:
  assumes "distinct (map id_w (windows s))"
  shows "focused_count (windows (openWindow window s)) = 1"
proof (cases "find (\<lambda>w. id_w w = id_w window) (windows s)")
  case None
  have "focused_count (map (\<lambda>w. w\<lparr>isFocused := False\<rparr>) (windows s)) = 0"
    by (simp add: focused_count_def filter_map comp_def)
  with None show ?thesis
    by (simp add: windows_openWindow focused_count_def)
next
  case (Some e)
  then have "id_w window \<in> set (map id_w (windows s))"
    using find_SomeD[OF Some] by force
  then have one: "length (filter (\<lambda>w. id_w w = id_w window) (windows s)) = 1"
    using count_key_one[OF assms] by simp
  have "focused_count
          (map (\<lambda>w. if id_w w = id_w window
                    then w\<lparr>isMinimized := isMinimized w \<and> \<not> isMinimized e,
                           isFocused := True, zIndex := topZIndex s + 1\<rparr>
                    else w\<lparr>isFocused := False\<rparr>) (windows s))
        = length (filter (\<lambda>w. id_w w = id_w window) (windows s))"
    by (rule focused_count_target) simp
  with Some one show ?thesis
    by (simp add: windows_openWindow)
qed

lemma focused_count_step:
  assumes "distinct (map id_w (windows s))" and "focused_count (windows s) \<le> 1"
  shows "focused_count (windows (step op s)) \<le> 1"
proof (cases op)
  case (Open window)
  then show ?thesis using focused_count_openWindow[OF assms(1)] by simp
next
  case (Close i)
  then show ?thesis
    using focused_count_filter_le[of "\<lambda>w. id_w w \<noteq> i" "windows s"] assms(2)
    by (simp add: windows_closeWindow)
next
  case (Minimize i)
  have "focused_count (windows (minimizeWindow i s)) \<le> focused_count (windows s)"
    unfolding windows_minimizeWindow by (rule focused_count_map_le) (simp split: if_splits)
  with Minimize assms(2) show ?thesis by simp
next
  case (Maximize i)
  have "focused_count (windows (maximizeWindow i s)) \<le> focused_count (windows s)"
    unfolding windows_maximizeWindow by (rule focused_count_map_le) (simp split: if_splits)
  with Maximize assms(2) show ?thesis by simp
next
  case (Restore i)
  then show ?thesis
    using count_key_le_one[OF assms(1), of i] by (simp add: focused_count_restoreWindow)
next
  case (Focus i)
  then show ?thesis
    using count_key_le_one[OF assms(1), of i] by (simp add: focused_count_focusWindow)
next
  case (Reposition i x y)
  have "focused_count (windows (updateWindowPosition i x y s)) \<le> focused_count (windows s)"
    unfolding windows_updateWindowPosition
    by (rule focused_count_map_le) (simp split: if_splits)
  with Reposition assms(2) show ?thesis by simp
next
  case (Resize i w h)
  have "focused_count (windows (updateWindowSize i w h s)) \<le> focused_count (windows s)"
    unfolding windows_updateWindowSize
    by (rule focused_count_map_le) (simp split: if_splits)
  with Resize assms(2) show ?thesis by simp
qed

lemma registry_inv_initial: "registry_inv initial"
  by (simp add: registry_inv_def initial_def focused_count_def)

lemma registry_inv_step:
  assumes "registry_inv s"
  shows "registry_inv (step op s)"
proof -
  have a: "distinct (map id_w (windows s))" "distinct (map zIndex (windows s))"
    "\<forall>w \<in> set (windows s). zIndex w \<le> topZIndex s" "focused_count (windows s) \<le> 1"
    using assms by (simp_all add: registry_inv_def)
  show ?thesis
    unfolding registry_inv_def
    using distinct_ids_step[OF a(1)] zIndex_inv_step[OF a(1,2,3)] focused_count_step[OF a(1,4)]
    by blast
qed

lemma registry_inv_run:
  assumes "registry_inv s"
  shows "registry_inv (run ops s)"
  using assms by (induction ops arbitrary: s) (simp_all add: registry_inv_step)

lemma registry_inv_states:
  assumes "registry_inv s" and "t \<in> set (states ops s)"
  shows "registry_inv t"
  using assms
proof (induction ops arbitrary: s)
  case Nil
  then show ?case by simp
next
  case (Cons op ops)
  from Cons.prems(2) have "t = s \<or> t \<in> set (states ops (step op s))" by simp
  then show ?case
  proof
    assume "t = s"
    then show ?thesis using Cons.prems(1) by simp
  next
    assume "t \<in> set (states ops (step op s))"
    then show ?thesis using Cons.IH[OF registry_inv_step[OF Cons.prems(1)]] by simp
  qed
qed

lemma topZIndex_run_mono: "topZIndex s \<le> topZIndex (run ops s)"
proof (induction ops arbitrary: s)
  case Nil
  then show ?case by simp
next
  case (Cons op ops)
  have "topZIndex s \<le> topZIndex (step op s)" by (rule topZIndex_step_mono)
  also have "\<dots> \<le> topZIndex (run ops (step op s))" by (rule Cons.IH)
  finally show ?case by simp
qed

lemma topZIndex_states_le:
  assumes "t \<in> set (states ops s)"
  shows "topZIndex t \<le> topZIndex (run ops s)"
  using assms
proof (induction ops arbitrary: s)
  case Nil
  then show ?case by simp
next
  case (Cons op ops)
  from Cons.prems have "t = s \<or> t \<in> set (states ops (step op s))" by simp
  then show ?case
  proof
    assume "t = s"
    then show ?thesis using topZIndex_run_mono[of s "op # ops"] by simp
  next
    assume "t \<in> set (states ops (step op s))"
    then show ?thesis using Cons.IH by simp
  qed
qed

lemma focusWindow_at:
  assumes "distinct (map id_w (windows s))" and "k < length (windows s)"
    and "id_w (windows s ! k) = i"
  shows "length (windows (focusWindow i s)) = length (windows s)
       \<and> (\<forall>j < length (windows s). isFocused (windows (focusWindow i s) ! j) = (j = k))
       \<and> zIndex (windows (focusWindow i s) ! k) = topZIndex s + 1
       \<and> id_w (windows (focusWindow i s) ! k) = i
       \<and> distinct (map id_w (windows (focusWindow i s)))"
proof -
  have other: "(id_w (windows s ! j) = i) = (j = k)" if "j < length (windows s)" for j
    using same_id_same_index[OF assms(1) that assms(2)] assms(3) by auto
  have dist: "distinct (map id_w (windows (focusWindow i s)))"
    using distinct_ids_step[OF assms(1), of "Focus i"] by simp
  have "length (windows (focusWindow i s)) = length (windows s)
       \<and> (\<forall>j < length (windows s). isFocused (windows (focusWindow i s) ! j) = (j = k))
       \<and> zIndex (windows (focusWindow i s) ! k) = topZIndex s + 1
       \<and> id_w (windows (focusWindow i s) ! k) = i"
    using assms(2,3) other by (simp add: windows_focusWindow)
  with dist show ?thesis by simp
qed

subsection \<open>Focus\<close>

text \<open>
  Claim C1. After every sequence of operations run from the initial, empty registry, at
  most one record has \<open>isFocused\<close> set.
\<close>

theorem at_most_one_focused:
  "focused_count (windows (run ops initial)) \<le> 1"
  using registry_inv_run[OF registry_inv_initial, of ops]
  by (simp add: registry_inv_def)

text \<open>
  Claim C4 says that a reachable registry that is not empty always has exactly one
  focused record. It does not: \<^verbatim>\<open>minimizeWindow\<close> writes \<open>isFocused: false\<close> to its
  target and focuses no other record, and \<^verbatim>\<open>closeWindow\<close> only filters. After opening
  \<open>notes-1\<close> and minimizing it, and after opening \<open>notes-1\<close> and \<open>calc-1\<close> and closing
  \<open>calc-1\<close>, the registry holds a record and none is focused.
\<close>

theorem focus_not_always_held_counterexample:
  "windows (run [Open notesWindow] initial) \<noteq> []
   \<and> windows (run [Open notesWindow, Minimize ''notes-1''] initial) \<noteq> []
   \<and> focused_count (windows (run [Open notesWindow, Minimize ''notes-1''] initial)) = 0
   \<and> windows (run [Open notesWindow, Open calcWindow] initial) \<noteq> []
   \<and> windows (run [Open notesWindow, Open calcWindow, Close ''calc-1''] initial) \<noteq> []
   \<and> focused_count
        (windows (run [Open notesWindow, Open calcWindow, Close ''calc-1''] initial)) = 0"
proof -
  have 1: "run [Open notesWindow, Minimize ''notes-1''] initial
             = minimizeWindow ''notes-1'' desk1"
    by (simp add: desk1_def)
  have 2: "run [Open notesWindow, Open calcWindow, Close ''calc-1''] initial
             = closeWindow ''calc-1'' desk2"
    by (simp add: desk2_def)
  show ?thesis
    unfolding 1 2 desk1_def[symmetric] desk2_def[symmetric]
    by (simp add: desk_simps windows_ops focused_count_def)
qed

text \<open>
  Claim C4, amended. From every reachable state no operation leaves two records focused,
  and \<^verbatim>\<open>openWindow\<close>, and \<^verbatim>\<open>restoreWindow\<close> and \<^verbatim>\<open>focusWindow\<close> on an identifier
  that is present, leave exactly one record focused.
\<close>

theorem stacking_focuses_exactly_one:
  "focused_count (windows (step op (run ops initial))) \<le> 1
   \<and> focused_count (windows (openWindow window (run ops initial))) = 1
   \<and> (i \<in> set (map id_w (windows (run ops initial))) \<longrightarrow>
         focused_count (windows (restoreWindow i (run ops initial))) = 1
       \<and> focused_count (windows (focusWindow i (run ops initial))) = 1)"
proof -
  let ?s = "run ops initial"
  have inv: "registry_inv ?s" by (rule registry_inv_run[OF registry_inv_initial])
  then have d: "distinct (map id_w (windows ?s))" by (simp add: registry_inv_def)
  have "registry_inv (step op ?s)" by (rule registry_inv_step[OF inv])
  then have a: "focused_count (windows (step op ?s)) \<le> 1" by (simp add: registry_inv_def)
  have b: "focused_count (windows (openWindow window ?s)) = 1"
    by (rule focused_count_openWindow[OF d])
  have c: "focused_count (windows (restoreWindow i ?s)) = 1
         \<and> focused_count (windows (focusWindow i ?s)) = 1"
    if "i \<in> set (map id_w (windows ?s))"
    using count_key_one[OF d that]
    by (simp add: focused_count_restoreWindow focused_count_focusWindow)
  from a b c show ?thesis by blast
qed

theorem stacking_focuses_exactly_one_witness:
  "''notes-1'' \<in> set (map id_w (windows (run [Open notesWindow, Open calcWindow] initial)))
   \<and> map isFocused (windows (run [Open notesWindow, Open calcWindow] initial)) = [False, True]
   \<and> map isFocused (windows (focusWindow ''notes-1''
         (run [Open notesWindow, Open calcWindow] initial))) = [True, False]
   \<and> focused_count (windows (focusWindow ''notes-1''
         (run [Open notesWindow, Open calcWindow] initial))) = 1
   \<and> focused_count (windows (restoreWindow ''notes-1''
         (run [Open notesWindow, Open calcWindow] initial))) = 1"
  using stacking_focuses_exactly_one[of "Focus ''notes-1''"
      "[Open notesWindow, Open calcWindow]" notesWindow "''notes-1''"]
  unfolding desk2_def[symmetric]
  by (simp add: desk_simps windows_ops focused_count_def notesWindow_def)

text \<open>
  Claim C3 says that \<^verbatim>\<open>focusWindow\<close> and \<^verbatim>\<open>restoreWindow\<close> change nothing when the
  identifier is absent. They do: neither looks the identifier up, so the counter is
  incremented and every record takes the \<open>else\<close> branch of the map, which clears
  \<open>isFocused\<close>. On the desktop holding only the focused window \<open>notes-1\<close>, focusing or
  restoring \<open>calc-1\<close> changes the array and moves \<open>topZIndex\<close> from 101 to 102.
\<close>

theorem focus_absent_counterexample:
  "''calc-1'' \<notin> set (map id_w (windows desk1))
   \<and> windows (focusWindow ''calc-1'' desk1)
       \<noteq> windows desk1
   \<and> topZIndex (focusWindow ''calc-1'' desk1) = 102
   \<and> topZIndex desk1 = 101
   \<and> windows (restoreWindow ''calc-1'' desk1)
       \<noteq> windows desk1
   \<and> topZIndex (restoreWindow ''calc-1'' desk1) = 102"
  by (simp add: desk_simps windows_ops topZIndex_ops)

text \<open>
  Claim C3, amended. For an identifier that is absent, \<^verbatim>\<open>focusWindow\<close> and
  \<^verbatim>\<open>restoreWindow\<close> add and remove no record and leave every field other than
  \<open>isFocused\<close> as it was; they set \<open>isFocused\<close> to false on every record and increment
  \<open>topZIndex\<close> by one.
\<close>

theorem focus_restore_absent:
  assumes "i \<notin> set (map id_w (windows s))"
  shows "windows (focusWindow i s) = map (\<lambda>w. w\<lparr>isFocused := False\<rparr>) (windows s)
       \<and> topZIndex (focusWindow i s) = topZIndex s + 1
       \<and> windows (restoreWindow i s) = map (\<lambda>w. w\<lparr>isFocused := False\<rparr>) (windows s)
       \<and> topZIndex (restoreWindow i s) = topZIndex s + 1"
  using assms
  by (auto simp add: windows_focusWindow windows_restoreWindow topZIndex_focusWindow
      topZIndex_restoreWindow)

theorem focus_restore_absent_witness:
  "''calc-1'' \<notin> set (map id_w (windows desk1))
   \<and> map isFocused (windows (focusWindow ''calc-1'' desk1)) = [False]
   \<and> map zIndex (windows (focusWindow ''calc-1'' desk1)) = [101]
   \<and> topZIndex (focusWindow ''calc-1'' desk1) = 102
   \<and> map isFocused (windows (restoreWindow ''calc-1'' desk1)) = [False]
   \<and> topZIndex (restoreWindow ''calc-1'' desk1) = 102"
proof -
  have h: "''calc-1'' \<notin> set (map id_w (windows desk1))" by (simp add: desk_simps)
  show ?thesis
    using h focus_restore_absent[OF h]
    by (simp add: desk_simps windows_ops topZIndex_ops)
qed

subsection \<open>Stacking indices\<close>

text \<open>
  Claim C2. After every sequence of operations run from the initial registry, the
  \<open>zIndex\<close> values of the records present are pairwise distinct; \<open>topZIndex\<close> is at least
  every \<open>zIndex\<close> that any record held in any state the sequence passed through (so also
  those of windows closed since); and the \<open>zIndex\<close> that a following \<^verbatim>\<open>openWindow\<close>
  gives to its window differs from all of them, in particular when the window is one that
  was closed before.
\<close>

theorem zIndex_never_reused:
  "distinct (map zIndex (windows (run ops initial)))
   \<and> (\<forall>t \<in> set (states ops initial). \<forall>w \<in> set (windows t).
         zIndex w \<le> topZIndex (run ops initial))
   \<and> (\<forall>t \<in> set (states ops initial). \<forall>w \<in> set (windows t).
       \<forall>w' \<in> set (windows (openWindow window (run ops initial))).
         id_w w' = id_w window \<longrightarrow> zIndex w' \<noteq> zIndex w)"
proof -
  let ?s = "run ops initial"
  have inv: "registry_inv ?s" by (rule registry_inv_run[OF registry_inv_initial])
  have le: "zIndex w \<le> topZIndex ?s" if "t \<in> set (states ops initial)" "w \<in> set (windows t)"
    for t :: "'a Desktop" and w
  proof -
    have "registry_inv t" using registry_inv_states[OF registry_inv_initial that(1)] .
    then have "zIndex w \<le> topZIndex t" using that(2) by (simp add: registry_inv_def)
    also have "\<dots> \<le> topZIndex ?s" by (rule topZIndex_states_le[OF that(1)])
    finally show ?thesis .
  qed
  have new: "zIndex w' = topZIndex ?s + 1"
    if "w' \<in> set (windows (openWindow window ?s))" "id_w w' = id_w window" for w'
    using that by (auto simp: windows_openWindow find_None_iff split: option.splits)
  have neq: "zIndex w' \<noteq> zIndex w"
    if "t \<in> set (states ops initial)" "w \<in> set (windows t)"
      "w' \<in> set (windows (openWindow window ?s))" "id_w w' = id_w window"
    for t :: "'a Desktop" and w w'
    using le[OF that(1,2)] new[OF that(3,4)] by simp
  have d: "distinct (map zIndex (windows ?s))" using inv by (simp add: registry_inv_def)
  from d le neq show ?thesis by blast
qed

theorem zIndex_never_reused_witness:
  "states [Open notesWindow, Close ''notes-1''] initial
     = [initial, desk1, closeWindow ''notes-1'' desk1]
   \<and> map zIndex (windows desk1) = [101]
   \<and> windows (run [Open notesWindow, Close ''notes-1''] initial) = []
   \<and> topZIndex (run [Open notesWindow, Close ''notes-1''] initial) = 101
   \<and> map zIndex (windows (openWindow notesWindow
            (run [Open notesWindow, Close ''notes-1''] initial))) = [102]"
proof -
  have st: "states [Open notesWindow, Close ''notes-1''] initial
              = [initial, desk1, closeWindow ''notes-1'' desk1]"
    by (simp add: desk1_def)
  have r: "run [Open notesWindow, Close ''notes-1''] initial = closeWindow ''notes-1'' desk1"
    by (simp add: desk1_def)
  show ?thesis
    using zIndex_never_reused[of "[Open notesWindow, Close ''notes-1'']" notesWindow]
    unfolding st r
    by (simp add: desk_simps windows_ops topZIndex_ops initial_def notesWindow_def)
qed

text \<open>
  Claim C6. The counter starts at 100, and the first \<^verbatim>\<open>openWindow\<close> on the initial
  registry gives 101. From every reachable state, \<^verbatim>\<open>openWindow\<close> increments the counter
  by one and the record with the identifier of its argument has the new value as
  \<open>zIndex\<close>; so do \<^verbatim>\<open>restoreWindow\<close> and \<^verbatim>\<open>focusWindow\<close> for the record at a position
  \<open>k\<close> whose identifier they are given. When that record is focused already, focusing it
  twice leaves it the only focused record after each call, with \<open>zIndex\<close> one and then two
  above the counter before, each strictly larger than the one before.
\<close>

theorem allocator_counter:
  "topZIndex (initial :: 'n Desktop) = 100
   \<and> topZIndex (openWindow window (initial :: 'n Desktop)) = 101
   \<and> map zIndex (windows (openWindow window (initial :: 'n Desktop))) = [101]
   \<and> (let s = run ops initial; s' = openWindow window s
      in topZIndex s' = topZIndex s + 1
       \<and> (\<exists>w \<in> set (windows s'). id_w w = id_w window)
       \<and> (\<forall>w \<in> set (windows s'). id_w w = id_w window \<longrightarrow> zIndex w = topZIndex s'))
   \<and> (\<forall>k < length (windows (run ops initial)).
        let s = run ops initial; i = id_w (windows s ! k);
            r = restoreWindow i s; f = focusWindow i s; f2 = focusWindow i f
        in topZIndex r = topZIndex s + 1 \<and> zIndex (windows r ! k) = topZIndex r
         \<and> topZIndex f = topZIndex s + 1 \<and> zIndex (windows f ! k) = topZIndex f
         \<and> (isFocused (windows s ! k) \<longrightarrow>
              length (windows f) = length (windows s)
            \<and> length (windows f2) = length (windows s)
            \<and> (\<forall>j < length (windows s).
                  isFocused (windows f ! j) = (j = k) \<and> isFocused (windows f2 ! j) = (j = k))
            \<and> zIndex (windows f ! k) = topZIndex s + 1
            \<and> zIndex (windows f2 ! k) = topZIndex s + 2
            \<and> zIndex (windows s ! k) < zIndex (windows f ! k)
            \<and> zIndex (windows f ! k) < zIndex (windows f2 ! k)))"
proof -
  let ?s = "run ops initial :: 'n Desktop"
  have inv: "registry_inv ?s" by (rule registry_inv_run[OF registry_inv_initial])
  then have d: "distinct (map id_w (windows ?s))" by (simp add: registry_inv_def)
  have 1: "topZIndex (initial :: 'n Desktop) = 100" by (simp add: initial_def)
  have 2: "topZIndex (openWindow window (initial :: 'n Desktop)) = 101"
    by (simp add: topZIndex_openWindow initial_def)
  have 3: "map zIndex (windows (openWindow window (initial :: 'n Desktop))) = [101]"
    by (simp add: windows_openWindow initial_def)
  have 4: "topZIndex (openWindow window ?s) = topZIndex ?s + 1"
    by (rule topZIndex_openWindow)
  have 5: "\<exists>w \<in> set (windows (openWindow window ?s)). id_w w = id_w window"
  proof -
    have "id_w window \<in> set (map id_w (windows (step (Open window) ?s)))"
      unfolding ids_step by simp
    then show ?thesis by auto
  qed
  have 6: "\<forall>w \<in> set (windows (openWindow window ?s)).
             id_w w = id_w window \<longrightarrow> zIndex w = topZIndex (openWindow window ?s)"
    by (auto simp: windows_openWindow topZIndex_openWindow find_None_iff split: option.splits)
  have 7: "let i = id_w (windows ?s ! k);
            r = restoreWindow i ?s; f = focusWindow i ?s; f2 = focusWindow i f
        in topZIndex r = topZIndex ?s + 1 \<and> zIndex (windows r ! k) = topZIndex r
         \<and> topZIndex f = topZIndex ?s + 1 \<and> zIndex (windows f ! k) = topZIndex f
         \<and> (isFocused (windows ?s ! k) \<longrightarrow>
              length (windows f) = length (windows ?s)
            \<and> length (windows f2) = length (windows ?s)
            \<and> (\<forall>j < length (windows ?s).
                  isFocused (windows f ! j) = (j = k) \<and> isFocused (windows f2 ! j) = (j = k))
            \<and> zIndex (windows f ! k) = topZIndex ?s + 1
            \<and> zIndex (windows f2 ! k) = topZIndex ?s + 2
            \<and> zIndex (windows ?s ! k) < zIndex (windows f ! k)
            \<and> zIndex (windows f ! k) < zIndex (windows f2 ! k))"
    if k: "k < length (windows ?s)" for k
  proof -
    define i where "i = id_w (windows ?s ! k)"
    define f where "f = focusWindow i ?s"
    have a: "length (windows f) = length (windows ?s)"
      "\<forall>j < length (windows ?s). isFocused (windows f ! j) = (j = k)"
      "zIndex (windows f ! k) = topZIndex ?s + 1"
      "id_w (windows f ! k) = i" "distinct (map id_w (windows f))"
      using focusWindow_at[OF d k, of i] by (simp_all add: i_def f_def)
    have kf: "k < length (windows f)" using k a(1) by simp
    have b: "length (windows (focusWindow i f)) = length (windows f)"
      "\<forall>j < length (windows f). isFocused (windows (focusWindow i f) ! j) = (j = k)"
      "zIndex (windows (focusWindow i f) ! k) = topZIndex f + 1"
      using focusWindow_at[OF a(5) kf a(4)] by simp_all
    have tf: "topZIndex f = topZIndex ?s + 1" by (simp add: f_def topZIndex_focusWindow)
    have le: "zIndex (windows ?s ! k) \<le> topZIndex ?s"
      using inv k by (simp add: registry_inv_def)
    have r: "zIndex (windows (restoreWindow i ?s) ! k) = topZIndex ?s + 1"
      using k by (simp add: windows_restoreWindow i_def)
    show ?thesis
      unfolding Let_def i_def[symmetric] f_def[symmetric]
      using a b tf le r by (simp add: topZIndex_restoreWindow)
  qed
  from 1 2 3 4 5 6 7 show ?thesis unfolding Let_def by blast
qed

theorem allocator_counter_witness:
  "0 < length (windows (run [Open notesWindow] initial))
   \<and> isFocused (windows (run [Open notesWindow] initial) ! 0)
   \<and> zIndex (windows (run [Open notesWindow] initial) ! 0) = 101
   \<and> map zIndex (windows (focusWindow ''notes-1'' (run [Open notesWindow] initial))) = [102]
   \<and> map zIndex (windows (focusWindow ''notes-1''
        (focusWindow ''notes-1'' (run [Open notesWindow] initial)))) = [103]
   \<and> map isFocused (windows (focusWindow ''notes-1''
        (focusWindow ''notes-1'' (run [Open notesWindow] initial)))) = [True]
   \<and> topZIndex (focusWindow ''notes-1''
        (focusWindow ''notes-1'' (run [Open notesWindow] initial))) = 103"
  using allocator_counter[of notesWindow "[Open notesWindow]"]
  unfolding desk1_def[symmetric]
  by (simp add: desk_simps windows_ops topZIndex_ops)

subsection \<open>Single operations\<close>

text \<open>
  Claim C5. In a registry (identifiers pairwise distinct) that holds a record \<open>r\<close> with
  the identifier of the argument, at position \<open>k\<close>, \<^verbatim>\<open>openWindow\<close> adds no record,
  increments \<open>topZIndex\<close> and gives its new value to \<open>r\<close> as \<open>zIndex\<close>, sets
  \<open>isFocused\<close> and clears \<open>isMinimized\<close> on \<open>r\<close>, keeps the geometry, title and icon of
  \<open>r\<close> (not those of the argument), and on every other record only clears \<open>isFocused\<close>.
\<close>

theorem openWindow_existing:
  assumes "distinct (map id_w (windows s))"
    and "k < length (windows s)" and "id_w (windows s ! k) = id_w window"
  shows "let r = windows s ! k; s' = openWindow window s; r' = windows s' ! k
         in length (windows s') = length (windows s)
          \<and> topZIndex s' = topZIndex s + 1
          \<and> isFocused r' \<and> zIndex r' = topZIndex s' \<and> \<not> isMinimized r'
          \<and> x_w r' = x_w r \<and> y_w r' = y_w r \<and> width r' = width r \<and> height r' = height r
          \<and> title r' = title r \<and> icon r' = icon r
          \<and> id_w r' = id_w r \<and> isMaximized r' = isMaximized r
          \<and> (\<forall>j < length (windows s). j \<noteq> k \<longrightarrow>
                windows s' ! j = (windows s ! j)\<lparr>isFocused := False\<rparr>)"
proof -
  have f: "find (\<lambda>w. id_w w = id_w window) (windows s) = Some (windows s ! k)"
    using find_at_index[OF assms(1,2)] assms(3) by simp
  have other: "id_w (windows s ! j) \<noteq> id_w window" if "j < length (windows s)" "j \<noteq> k" for j
    using same_id_same_index[OF assms(1) that(1) assms(2)] that(2) assms(3) by auto
  show ?thesis
    using assms(2,3) other
    by (simp add: Let_def windows_openWindow topZIndex_openWindow f)
qed

theorem openWindow_existing_witness:
  "distinct (map id_w (windows desk2)) \<and> 0 < length (windows desk2)
   \<and> id_w (windows desk2 ! 0) = id_w notesWindow
   \<and> map isFocused (windows (openWindow notesWindow desk2)) = [True, False]
   \<and> map zIndex (windows (openWindow notesWindow desk2)) = [103, 102]
   \<and> topZIndex (openWindow notesWindow desk2) = 103"
proof -
  have h1: "distinct (map id_w (windows desk2))" by (simp add: desk_simps)
  have h2: "0 < length (windows desk2)" by (simp add: desk_simps)
  have h3: "id_w (windows desk2 ! 0) = id_w notesWindow"
    by (simp add: desk_simps notesWindow_def)
  show ?thesis
    using h1 h2 h3 openWindow_existing[OF h1 h2 h3]
    by (simp add: desk_simps windows_ops topZIndex_ops notesWindow_def)
qed

text \<open>
  Claim C7. For every state that holds a record with the given identifier, maximizing
  twice brings that record's \<open>isMaximized\<close> back to its value, and each of the two
  calls (from \<open>s\<close> and from \<open>maximizeWindow i s\<close>) flips \<open>isMaximized\<close> of the records
  with that identifier and nothing else: their other ten fields, the records with another
  identifier, the length of the array and \<open>topZIndex\<close> are as before.
\<close>

theorem maximizeWindow_twice:
  assumes "k < length (windows s)" and "id_w (windows s ! k) = i"
  shows "isMaximized (windows (maximizeWindow i (maximizeWindow i s)) ! k)
           = isMaximized (windows s ! k)
       \<and> (\<forall>t \<in> {s, maximizeWindow i s}.
            topZIndex (maximizeWindow i t) = topZIndex t
          \<and> length (windows (maximizeWindow i t)) = length (windows t)
          \<and> (\<forall>j < length (windows t).
               let w = windows t ! j; w' = windows (maximizeWindow i t) ! j
               in (id_w w = i \<longrightarrow>
                     isMaximized w' = (\<not> isMaximized w)
                   \<and> id_w w' = id_w w \<and> title w' = title w \<and> icon w' = icon w
                   \<and> x_w w' = x_w w \<and> y_w w' = y_w w
                   \<and> width w' = width w \<and> height w' = height w
                   \<and> isMinimized w' = isMinimized w \<and> isFocused w' = isFocused w
                   \<and> zIndex w' = zIndex w)
                \<and> (id_w w \<noteq> i \<longrightarrow> w' = w)))"
  using assms
  by (simp add: windows_maximizeWindow topZIndex_maximizeWindow Let_def)

theorem maximizeWindow_twice_witness:
  "0 < length (windows desk1) \<and> id_w (windows desk1 ! 0) = ''notes-1''
   \<and> \<not> isMaximized (windows desk1 ! 0)
   \<and> isMaximized (windows (maximizeWindow ''notes-1'' desk1) ! 0)
   \<and> \<not> isMaximized (windows (maximizeWindow ''notes-1'' (maximizeWindow ''notes-1'' desk1)) ! 0)
   \<and> topZIndex (maximizeWindow ''notes-1'' (maximizeWindow ''notes-1'' desk1)) = 101"
proof -
  have h1: "0 < length (windows desk1)" by (simp add: desk_simps)
  have h2: "id_w (windows desk1 ! 0) = ''notes-1''" by (simp add: desk_simps)
  show ?thesis
    using h1 h2 maximizeWindow_twice[OF h1 h2]
    by (simp add: desk_simps windows_ops topZIndex_ops)
qed

text \<open>
  Claim C8. In a registry (identifiers pairwise distinct) that holds a record with the
  given identifier at position \<open>k\<close>, closing removes the record at \<open>k\<close> and nothing
  else: what remains are the records before and after it, in order and with every field
  as it was, and \<open>topZIndex\<close> keeps its value.
\<close>

theorem closeWindow_removes_only:
  assumes "distinct (map id_w (windows s))"
    and "k < length (windows s)" and "id_w (windows s ! k) = i"
  shows "windows (closeWindow i s) = take k (windows s) @ drop (Suc k) (windows s)
       \<and> topZIndex (closeWindow i s) = topZIndex s"
  using filter_other_ids[OF assms(1,2)] assms(3)
  by (simp add: windows_closeWindow topZIndex_closeWindow)

theorem closeWindow_removes_only_witness:
  "distinct (map id_w (windows desk2)) \<and> 0 < length (windows desk2)
   \<and> id_w (windows desk2 ! 0) = ''notes-1''
   \<and> windows (closeWindow ''notes-1'' desk2) = [windows desk2 ! 1]
   \<and> topZIndex (closeWindow ''notes-1'' desk2) = 102"
proof -
  have h1: "distinct (map id_w (windows desk2))" by (simp add: desk_simps)
  have h2: "0 < length (windows desk2)" by (simp add: desk_simps)
  have h3: "id_w (windows desk2 ! 0) = ''notes-1''" by (simp add: desk_simps)
  show ?thesis
    using h1 h2 h3 closeWindow_removes_only[OF h1 h2 h3]
    by (simp add: desk_simps windows_ops topZIndex_ops)
qed

text \<open>
  Claim C10. For every state that holds a record with the given identifier, minimizing
  twice gives the same array of records and the same \<open>topZIndex\<close> as minimizing once.
\<close>

theorem minimizeWindow_idempotent:
  assumes "r \<in> set (windows s)" and "id_w r = i"
  shows "windows (minimizeWindow i (minimizeWindow i s)) = windows (minimizeWindow i s)
       \<and> topZIndex (minimizeWindow i (minimizeWindow i s)) = topZIndex (minimizeWindow i s)"
  by (simp add: windows_minimizeWindow topZIndex_minimizeWindow)

theorem minimizeWindow_idempotent_witness:
  "windows desk1 ! 0 \<in> set (windows desk1) \<and> id_w (windows desk1 ! 0) = ''notes-1''
   \<and> windows (minimizeWindow ''notes-1'' (minimizeWindow ''notes-1'' desk1))
       = windows (minimizeWindow ''notes-1'' desk1)
   \<and> topZIndex (minimizeWindow ''notes-1'' (minimizeWindow ''notes-1'' desk1))
       = topZIndex (minimizeWindow ''notes-1'' desk1)
   \<and> isMinimized (windows (minimizeWindow ''notes-1'' desk1) ! 0)"
proof -
  have h1: "windows desk1 ! 0 \<in> set (windows desk1)" by (simp add: desk_simps)
  have h2: "id_w (windows desk1 ! 0) = ''notes-1''" by (simp add: desk_simps)
  show ?thesis
    using h1 h2 minimizeWindow_idempotent[OF h1 h2]
    by (simp add: desk_simps windows_ops topZIndex_ops)
qed

subsection \<open>Telemetry tags\<close>

lemma split_js_first: "\<exists>ps. split_js sep i = takeWhile (\<lambda>c. c \<noteq> sep) i # ps"
proof (induction i)
  case Nil
  then show ?case by simp
next
  case (Cons c cs)
  then obtain ps where "split_js sep cs = takeWhile (\<lambda>c. c \<noteq> sep) cs # ps" by blast
  then show ?case by simp
qed

lemma window_type_takeWhile: "window_type i = Some (takeWhile (\<lambda>c. c \<noteq> CHR ''-'') i)"
proof -
  obtain ps where "split_js (CHR ''-'') i = takeWhile (\<lambda>c. c \<noteq> CHR ''-'') i # ps"
    using split_js_first by blast
  then show ?thesis by (simp add: window_type_def)
qed

lemma takeWhile_before_first:
  assumes "sep \<in> set i"
  shows "\<exists>rest. i = takeWhile (\<lambda>c. c \<noteq> sep) i @ sep # rest"
proof -
  have "dropWhile (\<lambda>c. c \<noteq> sep) i \<noteq> []" using assms by (simp add: dropWhile_eq_Nil_conv)
  then obtain c rest where d: "dropWhile (\<lambda>c. c \<noteq> sep) i = c # rest"
    by (cases "dropWhile (\<lambda>c. c \<noteq> sep) i") auto
  then have "c = sep" using hd_dropWhile[of "\<lambda>c. c \<noteq> sep" i] by auto
  with d have "i = takeWhile (\<lambda>c. c \<noteq> sep) i @ sep # rest"
    using takeWhile_dropWhile_id[of "\<lambda>c. c \<noteq> sep" i] by simp
  then show ?thesis by blast
qed

lemma sentry_step: "sentry (step op s) = sentry s @ emitted op s"
  by (cases op)
    (simp_all add: emitted_def openWindow_def closeWindow_def minimizeWindow_def
      maximizeWindow_def restoreWindow_def focusWindow_def updateWindowPosition_def
      updateWindowSize_def Let_def split: prod.splits)

lemma emitted_counters:
  assumes "MetricsIncrement name amount tags \<in> set (emitted op s)"
  shows "map_of tags ''window_type'' = Some (window_type (op_id op))"
  using assms
  by (cases op)
    (auto simp add: emitted_def openWindow_def openWindow_updater_def
      closeWindow_def closeWindow_updater_def minimizeWindow_def minimizeWindow_updater_def
      maximizeWindow_def maximizeWindow_updater_def restoreWindow_def focusWindow_def
      updateWindowPosition_def updateWindowSize_def Let_def
      split: option.splits if_splits)

text \<open>
  Claim C9. For the identifier \<open>i\<close> an operation is called with, \<open>window_type i\<close> is
  the part \<open>p\<close> of \<open>i\<close> before its first \<open>-\<close>: \<open>p\<close> holds no \<open>-\<close>, \<open>i\<close> is \<open>p\<close>
  followed by \<open>-\<close> and a rest when \<open>i\<close> holds a \<open>-\<close>, and \<open>p\<close> is all of \<open>i\<close> when it
  holds none. Every counter the operation emits carries \<open>p\<close> as its \<open>window_type\<close> tag.
\<close>

theorem window_type_tag:
  "(\<exists>p. window_type (op_id op) = Some p
       \<and> p = takeWhile (\<lambda>c. c \<noteq> CHR ''-'') (op_id op)
       \<and> CHR ''-'' \<notin> set p
       \<and> (CHR ''-'' \<in> set (op_id op) \<longrightarrow> (\<exists>rest. op_id op = p @ CHR ''-'' # rest))
       \<and> (CHR ''-'' \<notin> set (op_id op) \<longrightarrow> p = op_id op)
       \<and> (\<forall>name amount tags.
             MetricsIncrement name amount tags \<in> set (emitted op s) \<longrightarrow>
               map_of tags ''window_type'' = Some (Some p)))"
proof -
  let ?i = "op_id op"
  let ?p = "takeWhile (\<lambda>c. c \<noteq> CHR ''-'') ?i"
  have 1: "window_type ?i = Some ?p" by (rule window_type_takeWhile)
  have 2: "CHR ''-'' \<notin> set ?p" using set_takeWhileD by fastforce
  have 3: "\<exists>rest. ?i = ?p @ CHR ''-'' # rest" if "CHR ''-'' \<in> set ?i"
    using takeWhile_before_first[OF that] .
  have 4: "?p = ?i" if "CHR ''-'' \<notin> set ?i"
    using that by (auto simp: takeWhile_eq_all_conv)
  have 5: "map_of tags ''window_type'' = Some (Some ?p)"
    if "MetricsIncrement name amount tags \<in> set (emitted op s)" for name amount tags
    using emitted_counters[OF that] 1 by simp
  from 1 2 3 4 5 show ?thesis by blast
qed

theorem window_type_tag_witness:
  "window_type ''notes-1'' = Some ''notes''
   \<and> window_type ''terminal'' = Some ''terminal''
   \<and> window_type ''a-b-c'' = Some ''a''
   \<and> emitted (Close ''notes-1'') desk1 =
       [LoggerInfo ''window_closed''
          [(''window_id'', AStr ''notes-1''), (''window_title'', AStr ''Notes'')],
        MetricsIncrement ''desktop.windows.closed'' 1 [(''window_type'', Some ''notes'')],
        MetricsGauge ''desktop.windows.active'' 0]"
proof -
  have e: "emitted (Close ''notes-1'') desk1 =
       [LoggerInfo ''window_closed''
          [(''window_id'', AStr ''notes-1''), (''window_title'', AStr ''Notes'')],
        MetricsIncrement ''desktop.windows.closed'' 1
          [(''window_type'', window_type ''notes-1'')],
        MetricsGauge ''desktop.windows.active'' 0]"
    by (simp add: emitted_def closeWindow_def closeWindow_updater_def desk1_eq)
  have m: "MetricsIncrement ''desktop.windows.closed'' 1
             [(''window_type'', window_type ''notes-1'')]
           \<in> set (emitted (Close ''notes-1'') desk1)"
    by (simp add: e)
  have "window_type ''notes-1'' = Some ''notes''"
    using window_type_tag[of "Close ''notes-1''" desk1] m by auto
  moreover have "window_type ''terminal'' = Some ''terminal''"
    using window_type_tag[of "Close ''terminal''" desk1] by auto
  moreover have "window_type ''a-b-c'' = Some ''a''"
    using window_type_tag[of "Close ''a-b-c''" desk1] by auto
  ultimately show ?thesis using e by simp
qed

end
